theory Spec2Isabelle
  imports Complex_Main "HOL-Library.Multiset"
begin

section \<open>The log analyzer: parsing, aggregation, statistics and top-N selection\<close>

text \<open>
  A shallow embedding of \<^verbatim>\<open>log_analyzer.py\<close>: \<^verbatim>\<open>parse_log_records\<close>,
  \<^verbatim>\<open>build_report_object\<close>, \<^verbatim>\<open>filter_report\<close> and the part of \<^verbatim>\<open>main\<close>
  that chains them. Locating the log file, reading the configuration and rendering the
  report are outside.

  Conventions of the model.
  \<^item> A log is the list of its lines after \<^verbatim>\<open>line.decode("utf-8")\<close>; a line is a list
    of characters with code points below 256, and ends with a newline when the file has
    one there. A line that is not valid UTF-8 makes the source raise while decoding; such
    input is outside the model.
  \<^item> A Python \<^verbatim>\<open>float\<close> is modelled by the rational number it denotes, and arithmetic
    on it is exact: the binary rounding of each operation, overflow, infinities and NaN
    are outside the model. The decimal rounding \<^verbatim>\<open>round(x, 3)\<close> is modelled: it rounds
    half to even, as CPython does on the exact value of its argument.
  \<^item> A Python \<^verbatim>\<open>int\<close> is an \<^typ>\<open>int\<close>.
  \<^item> A \<^verbatim>\<open>dict\<close> is an association list with distinct keys, in insertion order, which is
    the order \<^verbatim>\<open>items()\<close> iterates in.
  \<^item> An exception is a value of type \<open>error\<close>; a function that can raise returns
    \<open>error + 'a\<close>, with \<open>Inl\<close> for the exception.
\<close>

subsection \<open>Errors and numbers\<close>

type_synonym pyfloat = rat

datatype error =
    ZeroDivisionError
  | ValueError
  | IndexError
  | StatisticsError
  | HighFailedLinesRatio pyfloat
    \<comment> \<open>\<^verbatim>\<open>Exception(f"Unable to parse log file. High failed lines ratio: {ratio}")\<close>\<close>

definition bind_err :: "error + 'a \<Rightarrow> ('a \<Rightarrow> error + 'b) \<Rightarrow> error + 'b" where
  "bind_err m f = (case m of Inl e \<Rightarrow> Inl e | Inr v \<Rightarrow> f v)"

text \<open>True division \<^verbatim>\<open>a / b\<close>: raises on a zero divisor.\<close>

definition py_div :: "pyfloat \<Rightarrow> pyfloat \<Rightarrow> error + pyfloat" where
  "py_div a b = (if b = 0 then Inl ZeroDivisionError else Inr (a / b))"

text \<open>\<^verbatim>\<open>sum(xs)\<close>: starts from 0 and adds from the left.\<close>

definition py_sum :: "pyfloat list \<Rightarrow> pyfloat" where
  "py_sum xs = foldl (+) 0 xs"

text \<open>\<^verbatim>\<open>round(x, ndigits)\<close> on a float: to the nearest multiple of \<open>10 ^ - ndigits\<close>, a tie to the
  even one.\<close>

definition round_half_even :: "rat \<Rightarrow> int" where
  "round_half_even y =
     (let f = \<lfloor>y\<rfloor>; d = y - of_int f
      in if d < 1 / 2 then f else if 1 / 2 < d then f + 1 else if even f then f else f + 1)"

definition py_round :: "pyfloat \<Rightarrow> nat \<Rightarrow> pyfloat" where
  "py_round x ndigits = of_int (round_half_even (x * 10 ^ ndigits)) / 10 ^ ndigits"

text \<open>\<^verbatim>\<open>xs[-1]\<close>.\<close>

definition py_last :: "'a list \<Rightarrow> error + 'a" where
  "py_last xs = (if xs = [] then Inl IndexError else Inr (last xs))"

text \<open>\<^verbatim>\<open>xs[:n]\<close>: a negative \<open>n\<close> counts from the end.\<close>

definition py_slice_to :: "'a list \<Rightarrow> int \<Rightarrow> 'a list" where
  "py_slice_to xs n =
     (if 0 \<le> n then take (nat n) xs else take (nat (int (length xs) + n)) xs)"

text \<open>
  \<^verbatim>\<open>statistics.median\<close> of the standard library:
  \<^verbatim>\<open>
  data = sorted(data); n = len(data)
  if n == 0: raise StatisticsError("no median for empty data")
  if n % 2 == 1: return data[n // 2]
  else: i = n // 2; return (data[i - 1] + data[i]) / 2
  \<close>
\<close>

definition median :: "pyfloat list \<Rightarrow> error + pyfloat" where
  "median xs =
     (let data = sort xs; n = length data
      in if n = 0 then Inl StatisticsError
         else if n mod 2 = 1 then Inr (data ! (n div 2))
         else (let i = n div 2 in Inr ((data ! (i - 1) + data ! i) / 2)))"

text \<open>\<^verbatim>\<open>sorted(xs, key=key, reverse=True)\<close>: CPython reverses the list, sorts it stably in
  ascending key order and reverses the result, so that equal keys keep their order.\<close>

definition py_sorted_reverse :: "('a \<Rightarrow> 'k::linorder) \<Rightarrow> 'a list \<Rightarrow> 'a list" where
  "py_sorted_reverse key xs = rev (sort_key key (rev xs))"

subsection \<open>Regular expressions: the fragment the line pattern uses\<close>

text \<open>
  The matcher follows the backtracking search of \<^verbatim>\<open>re\<close>: \<open>rmatch r (s, g)\<close> lists, in the
  order backtracking tries them, every way \<open>r\<close> can match a prefix of \<open>s\<close>, each as the
  text left over and the groups captured so far. \<open>PlusCls p\<close> is the greedy \<^verbatim>\<open>c+\<close> for a
  one-character class \<open>c\<close>: the longest run first. \<open>Eol\<close> is \<^verbatim>\<open>$\<close> without
  \<^verbatim>\<open>MULTILINE\<close>: the end of the text, or just before a newline that ends it.
\<close>

datatype regex =
    Lit string
  | Cls "char \<Rightarrow> bool"
  | PlusCls "char \<Rightarrow> bool"
  | Seq regex regex
  | Alt regex regex
  | Group string regex
  | Eol

type_synonym groups = "(string \<times> string) list"

definition newline :: char where
  "newline = CHR 0x0A"

definition dquote :: char where
  "dquote = CHR 0x22"

text \<open>\<^verbatim>\<open>\s\<close> in a \<^verbatim>\<open>str\<close> pattern is \<^verbatim>\<open>str.isspace\<close>; below 256 these are the code points
  9 to 13, 28 to 32, 133 and 160. \<^verbatim>\<open>\d\<close> below 256 is \<^verbatim>\<open>0\<close> to \<^verbatim>\<open>9\<close>. The dot matches
  everything but a newline.\<close>

definition is_space :: "char \<Rightarrow> bool" where
  "is_space c \<longleftrightarrow>
     c \<in> set [CHR 0x09, CHR 0x0A, CHR 0x0B, CHR 0x0C, CHR 0x0D, CHR 0x1C, CHR 0x1D, CHR 0x1E,
              CHR 0x1F, CHR 0x20, CHR 0x85, CHR 0xA0]"

definition is_digit :: "char \<Rightarrow> bool" where
  "is_digit c \<longleftrightarrow> c \<in> set ''0123456789''"

definition any_char :: "char \<Rightarrow> bool" where
  "any_char c \<longleftrightarrow> c \<noteq> newline"

fun plus_rests :: "(char \<Rightarrow> bool) \<Rightarrow> string \<Rightarrow> string list" where
  "plus_rests p [] = []"
| "plus_rests p (c # s) = (if p c then plus_rests p s @ [s] else [])"

fun rmatch :: "regex \<Rightarrow> string \<times> groups \<Rightarrow> (string \<times> groups) list" where
  "rmatch (Lit w) (s, g) = (if take (length w) s = w then [(drop (length w) s, g)] else [])"
| "rmatch (Cls p) (s, g) = (case s of [] \<Rightarrow> [] | c # t \<Rightarrow> if p c then [(t, g)] else [])"
| "rmatch (PlusCls p) (s, g) = map (\<lambda>t. (t, g)) (plus_rests p s)"
| "rmatch (Seq a b) st = concat (map (rmatch b) (rmatch a st))"
| "rmatch (Alt a b) st = rmatch a st @ rmatch b st"
| "rmatch (Group n r) (s, g) =
     map (\<lambda>(t, g'). (t, g' @ [(n, take (length s - length t) s)])) (rmatch r (s, g))"
| "rmatch Eol (s, g) = (if s = [] \<or> s = [newline] then [(s, g)] else [])"

text \<open>\<^verbatim>\<open>re.search\<close>: the first match at the leftmost position that has one; the result is
  the match's \<^verbatim>\<open>groupdict()\<close>.\<close>

fun re_search :: "regex \<Rightarrow> string \<Rightarrow> groups option" where
  "re_search r s =
     (case rmatch r (s, []) of
        (t, g) # _ \<Rightarrow> Some g
      | [] \<Rightarrow> (case s of [] \<Rightarrow> None | c # s' \<Rightarrow> re_search r s'))"

fun seqs :: "regex list \<Rightarrow> regex" where
  "seqs [] = Lit []"
| "seqs [r] = r"
| "seqs (r # rs) = Seq r (seqs rs)"

fun alts :: "regex list \<Rightarrow> regex" where
  "alts [] = Cls (\<lambda>c. False)"
| "alts [r] = r"
| "alts (r # rs) = Alt r (alts rs)"

subsection \<open>parse\_log\_records\<close>

text \<open>
  \<^verbatim>\<open>
  (?:POST|GET|HEAD|PUT|OPTIONS)\s+(?P<url>.+)\s+HTTP\/\d\.\d"\s.+\s(?P<request_time>\d+\.\d+)$
  \<close>
\<close>

definition pattern :: regex where
  "pattern = seqs
     [alts [Lit ''POST'', Lit ''GET'', Lit ''HEAD'', Lit ''PUT'', Lit ''OPTIONS''],
      PlusCls is_space,
      Group ''url'' (PlusCls any_char),
      PlusCls is_space,
      Lit ''HTTP/'', Cls is_digit, Lit ''.'', Cls is_digit, Lit [dquote],
      Cls is_space,
      PlusCls any_char,
      Cls is_space,
      Group ''request_time'' (seqs [PlusCls is_digit, Lit ''.'', PlusCls is_digit]),
      Eol]"

text \<open>
  \<^verbatim>\<open>float(s)\<close> on the texts the group \<^verbatim>\<open>request_time\<close> can hold, digits, a dot, digits.
  On any other text the model answers \<open>ValueError\<close>; the source never calls it on one.
\<close>

definition digit_val :: "char \<Rightarrow> nat" where
  "digit_val c = of_char c - 48"

definition nat_of_digits :: "string \<Rightarrow> nat" where
  "nat_of_digits ds = foldl (\<lambda>n c. 10 * n + digit_val c) 0 ds"

definition decimal :: "string \<Rightarrow> string \<Rightarrow> pyfloat" where
  "decimal ip fp = of_nat (nat_of_digits ip) + of_nat (nat_of_digits fp) / 10 ^ length fp"

definition py_float :: "string \<Rightarrow> error + pyfloat" where
  "py_float s =
     (let ip = takeWhile is_digit s
      in case dropWhile is_digit s of
           [] \<Rightarrow> Inl ValueError
         | c # fp \<Rightarrow>
             if c = CHR ''.'' \<and> ip \<noteq> [] \<and> fp \<noteq> [] \<and> list_all is_digit fp
             then Inr (decimal ip fp) else Inl ValueError)"

text \<open>\<^verbatim>\<open>data[url].append(v)\<close> on a \<^verbatim>\<open>defaultdict(list)\<close>: a new key goes last.\<close>

fun dd_append :: "'k \<Rightarrow> 'v \<Rightarrow> ('k \<times> 'v list) list \<Rightarrow> ('k \<times> 'v list) list" where
  "dd_append k v [] = [(k, [v])]"
| "dd_append k v ((k', vs) # kvs) =
     (if k = k' then (k', vs @ [v]) # kvs else (k', vs) # dd_append k v kvs)"

type_synonym url_stats = "(string \<times> pyfloat list) list"

record parse_state =
  data :: url_stats
  total_lines_count :: int
  total_failed_lines_count :: int

text \<open>What the loop body makes of one line, up to the \<^verbatim>\<open>append\<close>: \<open>None\<close> when
  \<^verbatim>\<open>re.search\<close> finds no match, else the endpoint and the latency. Unpacking
  \<^verbatim>\<open>tuple(match.groupdict().values())\<close> into two names raises \<open>ValueError\<close> unless
  there are exactly two groups.\<close>

definition line_sample :: "string \<Rightarrow> error + (string \<times> pyfloat) option" where
  "line_sample record =
     (case re_search pattern record of
        None \<Rightarrow> Inr None
      | Some groupdict \<Rightarrow>
          (case map snd groupdict of
             [u, request_time] \<Rightarrow> bind_err (py_float request_time) (\<lambda>v. Inr (Some (u, v)))
           | _ \<Rightarrow> Inl ValueError))"

text \<open>One line of the loop: the body of \<^verbatim>\<open>for line_idx, line in enumerate(f, start=1)\<close>.\<close>

definition parse_line :: "string \<Rightarrow> parse_state \<Rightarrow> error + parse_state" where
  "parse_line record st =
     bind_err (line_sample record) (\<lambda>m.
       case m of
         None \<Rightarrow> Inr (st\<lparr>total_failed_lines_count := total_failed_lines_count st + 1\<rparr>)
       | Some (u, v) \<Rightarrow>
           Inr (st\<lparr>data := dd_append u v (data st),
                   total_lines_count := total_lines_count st + 1\<rparr>))"

fun parse_loop :: "string list \<Rightarrow> parse_state \<Rightarrow> error + parse_state" where
  "parse_loop [] st = Inr st"
| "parse_loop (record # rest) st = bind_err (parse_line record st) (parse_loop rest)"

definition parse_log_records :: "string list \<Rightarrow> pyfloat \<Rightarrow> error + url_stats" where
  "parse_log_records lines error_threshold =
     bind_err
       (parse_loop lines \<lparr>data = [], total_lines_count = 0, total_failed_lines_count = 0\<rparr>)
       (\<lambda>st.
          bind_err (py_div (of_int (total_failed_lines_count st)) (of_int (total_lines_count st)))
            (\<lambda>failed_lines_ratio.
               if failed_lines_ratio > error_threshold
               then Inl (HighFailedLinesRatio failed_lines_ratio)
               else Inr (data st)))"

subsection \<open>build\_report\_object\<close>

record report_row =
  url :: string
  count' :: int
  count_perc :: pyfloat
  time_sum :: pyfloat
  time_perc :: pyfloat
  time_avg :: pyfloat
  time_max :: pyfloat
  time_med :: pyfloat

text \<open>The dictionary display of one endpoint; its values are evaluated in the order they
  are written, so the first division that fails is the one that raises.\<close>

definition build_obj :: "int \<Rightarrow> pyfloat \<Rightarrow> string \<times> pyfloat list \<Rightarrow> error + report_row" where
  "build_obj count_total time_sum_total item =
     (case item of (u, request_times) \<Rightarrow>
        (let count_url = int (length request_times);
             time_sum_url = py_sum request_times
         in bind_err (py_div (of_int count_url) (of_int count_total)) (\<lambda>count_share.
            bind_err (py_div time_sum_url time_sum_total) (\<lambda>time_share.
            bind_err (py_div time_sum_url (of_int count_url)) (\<lambda>avg.
            bind_err (py_last (sort request_times)) (\<lambda>mx.
            bind_err (median request_times) (\<lambda>med.
              Inr \<lparr>url = u,
                   count' = count_url,
                   count_perc = py_round (count_share * 100) 3,
                   time_sum = py_round time_sum_url 3,
                   time_perc = py_round (time_share * 100) 3,
                   time_avg = py_round avg 3,
                   time_max = mx,
                   time_med = py_round med 3\<rparr>)))))))"

fun build_rows ::
  "int \<Rightarrow> pyfloat \<Rightarrow> url_stats \<Rightarrow> report_row list \<Rightarrow> error + report_row list" where
  "build_rows count_total time_sum_total [] report_data = Inr report_data"
| "build_rows count_total time_sum_total (item # items) report_data =
     bind_err (build_obj count_total time_sum_total item) (\<lambda>obj.
       build_rows count_total time_sum_total items (report_data @ [obj]))"

definition build_report_object :: "url_stats \<Rightarrow> error + report_row list" where
  "build_report_object url_stats =
     (let count_total = foldl (+) 0 (map (\<lambda>(_, request_times). int (length request_times)) url_stats);
          time_sum_total = py_sum (concat (map (\<lambda>(_, request_times). request_times) url_stats))
      in build_rows count_total time_sum_total url_stats [])"

subsection \<open>filter\_report\<close>

text \<open>The result is the pair of the list returned and of the caller's list as the call
  leaves it: \<^verbatim>\<open>sorted\<close> builds a new list and the slice another one, and nothing is
  assigned into \<^verbatim>\<open>report_data\<close>.\<close>

definition filter_report :: "report_row list \<Rightarrow> int \<Rightarrow> report_row list \<times> report_row list" where
  "filter_report report_data report_size =
     (let final_report_data = py_sorted_reverse time_sum report_data
      in (py_slice_to final_report_data report_size, report_data))"

subsection \<open>main, from the parsed log on\<close>

text \<open>\<open>Raised e\<close>: the exception leaves \<^verbatim>\<open>main\<close>. \<open>Exit_no_records\<close>: the branch
  \<^verbatim>\<open>if not url_stats\<close>, which logs "Unable to generate report: no related records found"
  and calls \<^verbatim>\<open>sys.exit(0)\<close>. \<open>Report_dumped rows\<close>: \<^verbatim>\<open>dump_final_report\<close> is called
  with \<open>rows\<close>.\<close>

datatype outcome =
    Raised error
  | Exit_no_records
  | Report_dumped "report_row list"

definition main :: "string list \<Rightarrow> pyfloat \<Rightarrow> int \<Rightarrow> outcome" where
  "main lines error_threshold report_size =
     (case parse_log_records lines error_threshold of
        Inl e \<Rightarrow> Raised e
      | Inr url_stats \<Rightarrow>
          if url_stats = [] then Exit_no_records
          else (case build_report_object url_stats of
                  Inl e \<Rightarrow> Raised e
                | Inr report_data \<Rightarrow> Report_dumped (fst (filter_report report_data report_size))))"

section \<open>Notions the properties are stated with\<close>

subsection \<open>What a regular expression matches\<close>

text \<open>\<open>den r w t gw\<close>: \<open>r\<close> matches the text \<open>w\<close> when \<open>t\<close> follows it, and captures the
  groups \<open>gw\<close>.\<close>

fun den :: "regex \<Rightarrow> string \<Rightarrow> string \<Rightarrow> groups \<Rightarrow> bool" where
  "den (Lit v) w t gw \<longleftrightarrow> w = v \<and> gw = []"
| "den (Cls p) w t gw \<longleftrightarrow> (\<exists>c. p c \<and> w = [c]) \<and> gw = []"
| "den (PlusCls p) w t gw \<longleftrightarrow> w \<noteq> [] \<and> list_all p w \<and> gw = []"
| "den (Seq a b) w t gw \<longleftrightarrow>
     (\<exists>w1 w2 g1 g2. w = w1 @ w2 \<and> gw = g1 @ g2 \<and> den a w1 (w2 @ t) g1 \<and> den b w2 t g2)"
| "den (Alt a b) w t gw \<longleftrightarrow> den a w t gw \<or> den b w t gw"
| "den (Group n r) w t gw \<longleftrightarrow> (\<exists>g1. den r w t g1 \<and> gw = g1 @ [(n, w)])"
| "den Eol w t gw \<longleftrightarrow> w = [] \<and> gw = [] \<and> (t = [] \<or> t = [newline])"

text \<open>The line pattern with the class of the path's characters left open: the source's
  pattern is \<open>pattern_with any_char\<close>, and the pattern the specification words, a path
  without whitespace, is \<open>pattern_with (\<lambda>c. \<not> is_space c)\<close>.\<close>

definition pattern_with :: "(char \<Rightarrow> bool) \<Rightarrow> regex" where
  "pattern_with path_char = seqs
     [alts [Lit ''POST'', Lit ''GET'', Lit ''HEAD'', Lit ''PUT'', Lit ''OPTIONS''],
      PlusCls is_space,
      Group ''url'' (PlusCls path_char),
      PlusCls is_space,
      Lit ''HTTP/'', Cls is_digit, Lit ''.'', Cls is_digit, Lit [dquote],
      Cls is_space,
      PlusCls any_char,
      Cls is_space,
      Group ''request_time'' (seqs [PlusCls is_digit, Lit ''.'', PlusCls is_digit]),
      Eol]"

definition time_tail :: regex where
  "time_tail = Seq (Group ''request_time'' (seqs [PlusCls is_digit, Lit ''.'', PlusCls is_digit])) Eol"

definition status_tail :: regex where
  "status_tail = Seq (Cls is_space) (Seq (PlusCls any_char) (Seq (Cls is_space) time_tail))"

definition http_tail :: regex where
  "http_tail = Seq (Lit ''HTTP/'') (Seq (Cls is_digit) (Seq (Lit ''.'') (Seq (Cls is_digit)
                 (Seq (Lit [dquote]) status_tail))))"

definition url_tail :: "(char \<Rightarrow> bool) \<Rightarrow> regex" where
  "url_tail p = Seq (PlusCls is_space) (Seq (Group ''url'' (PlusCls p)) (Seq (PlusCls is_space) http_tail))"

text \<open>\<open>request_text path_char w u ip fp\<close>: the text \<open>w\<close> is a request, from its method to
  its latency: a method, whitespace, the path \<open>u\<close> made of \<open>path_char\<close> characters,
  whitespace, \<^verbatim>\<open>HTTP/d.d"\<close>, one whitespace character, other fields, one whitespace
  character, and the latency \<open>ip.fp\<close> in digits.\<close>

definition request_text ::
  "(char \<Rightarrow> bool) \<Rightarrow> string \<Rightarrow> string \<Rightarrow> string \<Rightarrow> string \<Rightarrow> bool" where
  "request_text path_char w u ip fp \<longleftrightarrow>
     (\<exists>meth ws1 ws2 d1 d2 sp1 mid sp2.
        w = meth @ ws1 @ u @ ws2 @ ''HTTP/'' @ [d1] @ ''.'' @ [d2] @ [dquote] @ [sp1] @ mid @ [sp2]
              @ ip @ ''.'' @ fp
      \<and> meth \<in> set [''POST'', ''GET'', ''HEAD'', ''PUT'', ''OPTIONS'']
      \<and> ws1 \<noteq> [] \<and> list_all is_space ws1
      \<and> u \<noteq> [] \<and> list_all path_char u
      \<and> ws2 \<noteq> [] \<and> list_all is_space ws2
      \<and> is_digit d1 \<and> is_digit d2 \<and> is_space sp1
      \<and> mid \<noteq> [] \<and> list_all any_char mid
      \<and> is_space sp2
      \<and> ip \<noteq> [] \<and> list_all is_digit ip \<and> fp \<noteq> [] \<and> list_all is_digit fp)"

text \<open>\<open>conforms path_char line u ip fp\<close>: the line holds such a request that ends where the
  line does, or just before the newline that ends the line; anything may precede it.\<close>

definition conforms ::
  "(char \<Rightarrow> bool) \<Rightarrow> string \<Rightarrow> string \<Rightarrow> string \<Rightarrow> string \<Rightarrow> bool" where
  "conforms path_char line u ip fp \<longleftrightarrow>
     (\<exists>pre w nl. line = pre @ w @ nl \<and> request_text path_char w u ip fp
        \<and> (nl = [] \<or> nl = [newline]))"

subsection \<open>The samples of a log and their aggregation\<close>

text \<open>The samples extracted from the lines of a log, in order; the number of lines that
  gave one and of lines that gave none.\<close>

definition samples :: "string list \<Rightarrow> (string \<times> pyfloat) list" where
  "samples lines =
     List.map_filter (\<lambda>l. case line_sample l of Inr (Some x) \<Rightarrow> Some x | _ \<Rightarrow> None) lines"

definition n_success :: "string list \<Rightarrow> int" where
  "n_success lines = int (length (samples lines))"

definition n_failed :: "string list \<Rightarrow> int" where
  "n_failed lines = int (length (filter (\<lambda>l. line_sample l = Inr None) lines))"

text \<open>The endpoint-to-latencies mapping of a list of samples: every endpoint once, in the
  order of first appearance, with its latencies in the order of the samples.\<close>

definition latencies_of :: "string \<Rightarrow> (string \<times> pyfloat) list \<Rightarrow> pyfloat list" where
  "latencies_of u ss = map snd (filter (\<lambda>s. fst s = u) ss)"

definition endpoint_latencies :: "(string \<times> pyfloat) list \<Rightarrow> url_stats" where
  "endpoint_latencies ss =
     map (\<lambda>u. (u, latencies_of u ss)) (rev (remdups (rev (map fst ss))))"

subsection \<open>The statistics of an endpoint\<close>

text \<open>The totals over all endpoints: the number of samples, and the sum over the
  endpoints of the sum of their latencies.\<close>

definition total_count :: "url_stats \<Rightarrow> nat" where
  "total_count stats = sum_list (map (\<lambda>(u, ts). length ts) stats)"

definition total_time :: "url_stats \<Rightarrow> pyfloat" where
  "total_time stats = sum_list (map (\<lambda>(u, ts). sum_list ts) stats)"

text \<open>The median in the words of the specification: the middle value after sorting, and
  for a list of even length the average of the two middle values.\<close>

definition middle_value :: "pyfloat list \<Rightarrow> pyfloat" where
  "middle_value ts =
     (let s = sort ts; n = length ts
      in if even n then (s ! (n div 2 - 1) + s ! (n div 2)) / 2 else s ! (n div 2))"

text \<open>The summary record of one endpoint, given the two totals.\<close>

definition summary :: "nat \<Rightarrow> pyfloat \<Rightarrow> string \<times> pyfloat list \<Rightarrow> report_row" where
  "summary n_total t_total item =
     (case item of (u, ts) \<Rightarrow>
        \<lparr>url = u,
         count' = int (length ts),
         count_perc = py_round (of_nat (length ts) / of_nat n_total * 100) 3,
         time_sum = py_round (sum_list ts) 3,
         time_perc = py_round (sum_list ts / t_total * 100) 3,
         time_avg = py_round (sum_list ts / of_nat (length ts)) 3,
         time_max = Max (set ts),
         time_med = py_round (middle_value ts) 3\<rparr>)"

text \<open>Every endpoint has at least one latency.\<close>

definition all_sampled :: "url_stats \<Rightarrow> bool" where
  "all_sampled stats \<longleftrightarrow> list_all (\<lambda>(u, ts). ts \<noteq> []) stats"

section \<open>Properties\<close>

lemma bind_err_Inr: "bind_err (Inr v) f = f v"
  by (simp add: bind_err_def)

subsection \<open>The matcher and the line pattern\<close>

lemma in_plus_rests: "t \<in> set (plus_rests p s) \<longleftrightarrow> (\<exists>w. w \<noteq> [] \<and> list_all p w \<and> s = w @ t)"
proof (induction s)
  case Nil
  then show ?case by simp
next
  case (Cons c s)
  show ?case
  proof
    assume "t \<in> set (plus_rests p (c # s))"
    then have pc: "p c" and cases: "t \<in> set (plus_rests p s) \<or> t = s"
      by (auto split: if_splits)
    from cases show "\<exists>w. w \<noteq> [] \<and> list_all p w \<and> c # s = w @ t"
    proof
      assume "t \<in> set (plus_rests p s)"
      then obtain w where "w \<noteq> []" "list_all p w" "s = w @ t" using Cons.IH by blast
      then have "c # w \<noteq> [] \<and> list_all p (c # w) \<and> c # s = (c # w) @ t" using pc by simp
      then show ?thesis by blast
    next
      assume "t = s"
      then have "[c] \<noteq> [] \<and> list_all p [c] \<and> c # s = [c] @ t" using pc by simp
      then show ?thesis by blast
    qed
  next
    assume "\<exists>w. w \<noteq> [] \<and> list_all p w \<and> c # s = w @ t"
    then obtain w where w: "w \<noteq> []" "list_all p w" "c # s = w @ t" by blast
    then obtain w' where w': "w = c # w'" "s = w' @ t" by (cases w) auto
    then have pc: "p c" and "list_all p w'" using w by auto
    show "t \<in> set (plus_rests p (c # s))"
    proof (cases "w' = []")
      case True
      then show ?thesis using pc w' by simp
    next
      case False
      then have "t \<in> set (plus_rests p s)" using Cons.IH w' \<open>list_all p w'\<close> by blast
      then show ?thesis using pc by simp
    qed
  qed
qed

lemma rmatch_den:
  "(t, g') \<in> set (rmatch r (s, g)) \<longleftrightarrow> (\<exists>w gw. s = w @ t \<and> g' = g @ gw \<and> den r w t gw)"
proof (induction r arbitrary: s g t g')
  case (Lit v)
  have "take (length v) s = v \<and> drop (length v) s = t \<longleftrightarrow> s = v @ t"
    by (metis append_eq_conv_conj)
  then show ?case by auto
next
  case (Cls p)
  then show ?case by (auto split: list.splits)
next
  case (PlusCls p)
  then show ?case by (auto simp: in_plus_rests)
next
  case (Seq a b)
  show ?case
  proof
    assume "(t, g') \<in> set (rmatch (Seq a b) (s, g))"
    then obtain u h where a: "(u, h) \<in> set (rmatch a (s, g))" and b: "(t, g') \<in> set (rmatch b (u, h))"
      by auto
    from a obtain w1 g1 where 1: "s = w1 @ u" "h = g @ g1" "den a w1 u g1" using Seq.IH(1) by blast
    from b obtain w2 g2 where 2: "u = w2 @ t" "g' = h @ g2" "den b w2 t g2" using Seq.IH(2) by blast
    have "s = (w1 @ w2) @ t \<and> g' = g @ (g1 @ g2) \<and> den (Seq a b) (w1 @ w2) t (g1 @ g2)"
      using 1 2 by auto
    then show "\<exists>w gw. s = w @ t \<and> g' = g @ gw \<and> den (Seq a b) w t gw" by blast
  next
    assume "\<exists>w gw. s = w @ t \<and> g' = g @ gw \<and> den (Seq a b) w t gw"
    then obtain w1 w2 g1 g2 where d: "s = (w1 @ w2) @ t" "g' = g @ g1 @ g2" "den a w1 (w2 @ t) g1" "den b w2 t g2"
      by auto
    have a: "(w2 @ t, g @ g1) \<in> set (rmatch a (s, g))" using Seq.IH(1) d by auto
    have b: "(t, g') \<in> set (rmatch b (w2 @ t, g @ g1))" using Seq.IH(2) d by auto
    show "(t, g') \<in> set (rmatch (Seq a b) (s, g))" using a b by auto
  qed
next
  case (Alt a b)
  then show ?case by auto
next
  case (Group n r)
  show ?case
  proof
    assume "(t, g') \<in> set (rmatch (Group n r) (s, g))"
    then obtain h where h: "(t, h) \<in> set (rmatch r (s, g))" "g' = h @ [(n, take (length s - length t) s)]"
      by auto
    then obtain w gw where w: "s = w @ t" "h = g @ gw" "den r w t gw" using Group.IH by blast
    then have "s = w @ t \<and> g' = g @ (gw @ [(n, w)]) \<and> den (Group n r) w t (gw @ [(n, w)])"
      using h by auto
    then show "\<exists>w gw. s = w @ t \<and> g' = g @ gw \<and> den (Group n r) w t gw" by blast
  next
    assume "\<exists>w gw. s = w @ t \<and> g' = g @ gw \<and> den (Group n r) w t gw"
    then obtain w g1 where d: "s = w @ t" "g' = g @ g1 @ [(n, w)]" "den r w t g1" by auto
    then have "(t, g @ g1) \<in> set (rmatch r (s, g))" using Group.IH by blast
    then show "(t, g') \<in> set (rmatch (Group n r) (s, g))" using d by force
  qed
next
  case Eol
  then show ?case by auto
qed

lemma pattern_eq: "pattern = pattern_with any_char"
  by (simp add: pattern_def pattern_with_def)


lemma den_Seq_Lit: "den (Seq (Lit v) b) w t gw \<longleftrightarrow> (\<exists>w2. w = v @ w2 \<and> den b w2 t gw)"
  by auto

lemma den_Seq_Cls: "den (Seq (Cls p) b) w t gw \<longleftrightarrow> (\<exists>c w2. p c \<and> w = c # w2 \<and> den b w2 t gw)"
proof
  assume "den (Seq (Cls p) b) w t gw"
  then show "\<exists>c w2. p c \<and> w = c # w2 \<and> den b w2 t gw" by auto
next
  assume "\<exists>c w2. p c \<and> w = c # w2 \<and> den b w2 t gw"
  then obtain c w2 where "p c" "w = [c] @ w2" "den b w2 t gw" by auto
  then have "w = [c] @ w2 \<and> gw = [] @ gw \<and> den (Cls p) [c] (w2 @ t) [] \<and> den b w2 t gw" by simp
  then show "den (Seq (Cls p) b) w t gw" unfolding den.simps(4) by blast
qed

lemma den_Seq_PlusCls:
  "den (Seq (PlusCls p) b) w t gw \<longleftrightarrow>
     (\<exists>w1 w2. w1 \<noteq> [] \<and> list_all p w1 \<and> w = w1 @ w2 \<and> den b w2 t gw)"
  by auto

lemma den_Seq_Group_PlusCls:
  "den (Seq (Group n (PlusCls p)) b) w t gw \<longleftrightarrow>
     (\<exists>w1 w2 g2. w1 \<noteq> [] \<and> list_all p w1 \<and> w = w1 @ w2 \<and> den b w2 t g2 \<and> gw = (n, w1) # g2)"
  by auto

lemma den_Seq_Alt: "den (Seq (Alt a a') b) w t gw \<longleftrightarrow> den (Seq a b) w t gw \<or> den (Seq a' b) w t gw"
  by auto


lemma den_time_tail_gen:
  "den (Seq (Group n (seqs [PlusCls d, Lit dot, PlusCls d])) Eol) w t gw \<longleftrightarrow>
     (\<exists>ip fp. w = ip @ dot @ fp \<and> ip \<noteq> [] \<and> list_all d ip \<and> fp \<noteq> [] \<and> list_all d fp
        \<and> gw = [(n, ip @ dot @ fp)] \<and> (t = [] \<or> t = [newline]))"
  by (simp del: append_assoc) blast

lemma den_time_tail:
  "den time_tail w t gw \<longleftrightarrow>
     (\<exists>ip fp. w = ip @ ''.'' @ fp \<and> ip \<noteq> [] \<and> list_all is_digit ip \<and> fp \<noteq> [] \<and> list_all is_digit fp
        \<and> gw = [(''request_time'', ip @ ''.'' @ fp)] \<and> (t = [] \<or> t = [newline]))"
  unfolding time_tail_def by (rule den_time_tail_gen)

lemma den_status_tail_gen:
  "den (Seq (Cls q) (Seq (PlusCls a) (Seq (Cls q) r))) w t gw \<longleftrightarrow>
     (\<exists>sp1 mid sp2 w'. w = [sp1] @ mid @ [sp2] @ w' \<and> q sp1 \<and> mid \<noteq> [] \<and> list_all a mid
        \<and> q sp2 \<and> den r w' t gw)"
  by (simp only: den_Seq_Cls den_Seq_PlusCls) (simp, blast)

lemma den_status_tail:
  "den status_tail w t gw \<longleftrightarrow>
     (\<exists>sp1 mid sp2 w'. w = [sp1] @ mid @ [sp2] @ w' \<and> is_space sp1 \<and> mid \<noteq> [] \<and> list_all any_char mid
        \<and> is_space sp2 \<and> den time_tail w' t gw)"
  unfolding status_tail_def by (rule den_status_tail_gen)

lemma den_http_tail_gen:
  "den (Seq (Lit a) (Seq (Cls d) (Seq (Lit b) (Seq (Cls d) (Seq (Lit c) r))))) w t gw \<longleftrightarrow>
     (\<exists>d1 d2 w'. w = a @ [d1] @ b @ [d2] @ c @ w' \<and> d d1 \<and> d d2 \<and> den r w' t gw)"
  by (simp only: den_Seq_Cls den_Seq_Lit) (simp, blast)

lemma den_http_tail:
  "den http_tail w t gw \<longleftrightarrow>
     (\<exists>d1 d2 w'. w = ''HTTP/'' @ [d1] @ ''.'' @ [d2] @ [dquote] @ w' \<and> is_digit d1 \<and> is_digit d2
        \<and> den status_tail w' t gw)"
  unfolding http_tail_def by (rule den_http_tail_gen)

lemma den_url_tail_gen:
  "den (Seq (PlusCls q) (Seq (Group n (PlusCls p)) (Seq (PlusCls q) b))) w t gw \<longleftrightarrow>
     (\<exists>ws1 u ws2 w' g2. w = ws1 @ u @ ws2 @ w' \<and> ws1 \<noteq> [] \<and> list_all q ws1
        \<and> u \<noteq> [] \<and> list_all p u \<and> ws2 \<noteq> [] \<and> list_all q ws2
        \<and> den b w' t g2 \<and> gw = (n, u) # g2)"
proof
  assume "den (Seq (PlusCls q) (Seq (Group n (PlusCls p)) (Seq (PlusCls q) b))) w t gw"
  then obtain ws1 w2 where 1: "ws1 \<noteq> []" "list_all q ws1" "w = ws1 @ w2"
      "den (Seq (Group n (PlusCls p)) (Seq (PlusCls q) b)) w2 t gw"
    unfolding den_Seq_PlusCls by blast
  from 1(4) obtain u w3 g2 where 2: "u \<noteq> []" "list_all p u" "w2 = u @ w3"
      "den (Seq (PlusCls q) b) w3 t g2" "gw = (n, u) # g2"
    unfolding den_Seq_Group_PlusCls by blast
  from 2(4) obtain ws2 w' where 3: "ws2 \<noteq> []" "list_all q ws2" "w3 = ws2 @ w'" "den b w' t g2"
    unfolding den_Seq_PlusCls by blast
  have "w = ws1 @ u @ ws2 @ w'" using 1 2 3 by simp
  then show "\<exists>ws1 u ws2 w' g2. w = ws1 @ u @ ws2 @ w' \<and> ws1 \<noteq> [] \<and> list_all q ws1
        \<and> u \<noteq> [] \<and> list_all p u \<and> ws2 \<noteq> [] \<and> list_all q ws2
        \<and> den b w' t g2 \<and> gw = (n, u) # g2"
    using 1 2 3 by blast
next
  assume "\<exists>ws1 u ws2 w' g2. w = ws1 @ u @ ws2 @ w' \<and> ws1 \<noteq> [] \<and> list_all q ws1
        \<and> u \<noteq> [] \<and> list_all p u \<and> ws2 \<noteq> [] \<and> list_all q ws2
        \<and> den b w' t g2 \<and> gw = (n, u) # g2"
  then obtain ws1 u ws2 w' g2 where a: "w = ws1 @ u @ ws2 @ w'" "ws1 \<noteq> []" "list_all q ws1"
        "u \<noteq> []" "list_all p u" "ws2 \<noteq> []" "list_all q ws2" "den b w' t g2" "gw = (n, u) # g2"
    by blast
  have 3: "den (Seq (PlusCls q) b) (ws2 @ w') t g2"
    unfolding den_Seq_PlusCls using a by blast
  have 2: "den (Seq (Group n (PlusCls p)) (Seq (PlusCls q) b)) (u @ ws2 @ w') t gw"
    unfolding den_Seq_Group_PlusCls using a 3 by blast
  show "den (Seq (PlusCls q) (Seq (Group n (PlusCls p)) (Seq (PlusCls q) b))) w t gw"
    unfolding den_Seq_PlusCls using a 2 by blast
qed

lemma den_url_tail:
  "den (url_tail p) w t gw \<longleftrightarrow>
     (\<exists>ws1 u ws2 w' g2. w = ws1 @ u @ ws2 @ w' \<and> ws1 \<noteq> [] \<and> list_all is_space ws1
        \<and> u \<noteq> [] \<and> list_all p u \<and> ws2 \<noteq> [] \<and> list_all is_space ws2
        \<and> den http_tail w' t g2 \<and> gw = (''url'', u) # g2)"
  unfolding url_tail_def by (rule den_url_tail_gen)

lemma den_Seq_alts_Lit:
  "den (Seq (alts (map Lit ms)) b) w t gw \<longleftrightarrow>
     (\<exists>meth w'. w = meth @ w' \<and> meth \<in> set ms \<and> den b w' t gw)"
proof (induction ms rule: induct_list012)
  case 1
  then show ?case by simp
next
  case (2 m)
  then show ?case by (simp add: den_Seq_Lit del: den.simps)
next
  case (3 m m' ms)
  have "den (Seq (alts (map Lit (m # m' # ms))) b) w t gw \<longleftrightarrow>
          den (Seq (Lit m) b) w t gw \<or> den (Seq (alts (map Lit (m' # ms))) b) w t gw"
    by (simp add: den_Seq_Alt del: den.simps)
  also have "\<dots> \<longleftrightarrow> (\<exists>w'. w = m @ w' \<and> den b w' t gw) \<or>
      (\<exists>meth w'. w = meth @ w' \<and> meth \<in> set (m' # ms) \<and> den b w' t gw)"
    using 3 by (simp only: den_Seq_Lit)
  also have "\<dots> \<longleftrightarrow> (\<exists>meth w'. w = meth @ w' \<and> meth \<in> set (m # m' # ms) \<and> den b w' t gw)"
    by auto
  finally show ?case .
qed

lemma den_methods:
  "den (Seq (alts [Lit ''POST'', Lit ''GET'', Lit ''HEAD'', Lit ''PUT'', Lit ''OPTIONS'']) b) w t gw \<longleftrightarrow>
     (\<exists>meth w'. w = meth @ w' \<and> meth \<in> set [''POST'', ''GET'', ''HEAD'', ''PUT'', ''OPTIONS'']
        \<and> den b w' t gw)"
  using den_Seq_alts_Lit[of "[''POST'', ''GET'', ''HEAD'', ''PUT'', ''OPTIONS'']" b w t gw]
  by (simp only: list.map)


lemma pattern_with_chunks:
  "pattern_with p = Seq (alts [Lit ''POST'', Lit ''GET'', Lit ''HEAD'', Lit ''PUT'', Lit ''OPTIONS'']) (url_tail p)"
  by (simp add: pattern_with_def url_tail_def http_tail_def status_tail_def time_tail_def)

lemma den_pattern_with:
  "den (pattern_with p) w t gw \<longleftrightarrow>
     (\<exists>u ip fp. request_text p w u ip fp \<and> (t = [] \<or> t = [newline])
        \<and> gw = [(''url'', u), (''request_time'', ip @ ''.'' @ fp)])"
proof
  assume "den (pattern_with p) w t gw"
  then obtain meth w1 where 1: "w = meth @ w1" "meth \<in> set [''POST'', ''GET'', ''HEAD'', ''PUT'', ''OPTIONS'']"
      "den (url_tail p) w1 t gw"
    unfolding pattern_with_chunks den_methods by blast
  from 1(3) obtain ws1 u ws2 w2 g2 where 2: "w1 = ws1 @ u @ ws2 @ w2" "ws1 \<noteq> []" "list_all is_space ws1"
      "u \<noteq> []" "list_all p u" "ws2 \<noteq> []" "list_all is_space ws2" "den http_tail w2 t g2" "gw = (''url'', u) # g2"
    unfolding den_url_tail by blast
  from 2(8) obtain d1 d2 w3 where 3: "w2 = ''HTTP/'' @ [d1] @ ''.'' @ [d2] @ [dquote] @ w3" "is_digit d1" "is_digit d2"
      "den status_tail w3 t g2"
    unfolding den_http_tail by blast
  from 3(4) obtain sp1 mid sp2 w4 where 4: "w3 = [sp1] @ mid @ [sp2] @ w4" "is_space sp1" "mid \<noteq> []"
      "list_all any_char mid" "is_space sp2" "den time_tail w4 t g2"
    unfolding den_status_tail by blast
  from 4(6) obtain ip fp where 5: "w4 = ip @ ''.'' @ fp" "ip \<noteq> []" "list_all is_digit ip" "fp \<noteq> []"
      "list_all is_digit fp" "g2 = [(''request_time'', ip @ ''.'' @ fp)]" "t = [] \<or> t = [newline]"
    unfolding den_time_tail by blast
  have eq: "w = meth @ ws1 @ u @ ws2 @ ''HTTP/'' @ [d1] @ ''.'' @ [d2] @ [dquote] @ [sp1] @ mid @ [sp2] @ ip @ ''.'' @ fp"
    unfolding 1(1) 2(1) 3(1) 4(1) 5(1) by (rule refl)
  have "request_text p w u ip fp"
    unfolding request_text_def
    using eq 1(2) 2(2-7) 3(2,3) 4(2-5) 5(2-5) by (intro exI conjI) assumption+
  moreover have "gw = [(''url'', u), (''request_time'', ip @ ''.'' @ fp)]"
    unfolding 2(9) 5(6) by (rule refl)
  ultimately show "\<exists>u ip fp. request_text p w u ip fp \<and> (t = [] \<or> t = [newline])
        \<and> gw = [(''url'', u), (''request_time'', ip @ ''.'' @ fp)]"
    using 5(7) by (intro exI conjI) assumption+
next
  assume "\<exists>u ip fp. request_text p w u ip fp \<and> (t = [] \<or> t = [newline])
        \<and> gw = [(''url'', u), (''request_time'', ip @ ''.'' @ fp)]"
  then obtain u ip fp where r: "request_text p w u ip fp" and t: "t = [] \<or> t = [newline]"
    and gw: "gw = [(''url'', u), (''request_time'', ip @ ''.'' @ fp)]" by (elim exE conjE)
  from r[unfolded request_text_def] obtain meth ws1 ws2 d1 d2 sp1 mid sp2 where
    w: "w = meth @ ws1 @ u @ ws2 @ ''HTTP/'' @ [d1] @ ''.'' @ [d2] @ [dquote] @ [sp1] @ mid @ [sp2] @ ip @ ''.'' @ fp"
    and m: "meth \<in> set [''POST'', ''GET'', ''HEAD'', ''PUT'', ''OPTIONS'']"
    and c: "ws1 \<noteq> []" "list_all is_space ws1" "u \<noteq> []" "list_all p u" "ws2 \<noteq> []" "list_all is_space ws2"
      "is_digit d1" "is_digit d2" "is_space sp1" "mid \<noteq> []" "list_all any_char mid" "is_space sp2"
      "ip \<noteq> []" "list_all is_digit ip" "fp \<noteq> []" "list_all is_digit fp"
    by (elim exE conjE)
  have 5: "den time_tail (ip @ ''.'' @ fp) t [(''request_time'', ip @ ''.'' @ fp)]"
    unfolding den_time_tail using refl[of "ip @ ''.'' @ fp"] c(13-16) refl[of "[(''request_time'', ip @ ''.'' @ fp)]"] t
    by (intro exI conjI) assumption+
  have 4: "den status_tail ([sp1] @ mid @ [sp2] @ ip @ ''.'' @ fp) t [(''request_time'', ip @ ''.'' @ fp)]"
    unfolding den_status_tail using refl[of "[sp1] @ mid @ [sp2] @ ip @ ''.'' @ fp"] c(9-12) 5
    by (intro exI conjI) assumption+
  have 3: "den http_tail (''HTTP/'' @ [d1] @ ''.'' @ [d2] @ [dquote] @ [sp1] @ mid @ [sp2] @ ip @ ''.'' @ fp) t
       [(''request_time'', ip @ ''.'' @ fp)]"
    unfolding den_http_tail
    using refl[of "''HTTP/'' @ [d1] @ ''.'' @ [d2] @ [dquote] @ [sp1] @ mid @ [sp2] @ ip @ ''.'' @ fp"] c(7,8) 4
    by (intro exI conjI) assumption+
  have 2: "den (url_tail p) (ws1 @ u @ ws2 @ ''HTTP/'' @ [d1] @ ''.'' @ [d2] @ [dquote] @ [sp1] @ mid @ [sp2] @ ip @ ''.'' @ fp) t gw"
    unfolding den_url_tail
    using refl[of "ws1 @ u @ ws2 @ ''HTTP/'' @ [d1] @ ''.'' @ [d2] @ [dquote] @ [sp1] @ mid @ [sp2] @ ip @ ''.'' @ fp"]
      c(1-6) 3 gw
    by (intro exI conjI) assumption+
  show "den (pattern_with p) w t gw"
    unfolding pattern_with_chunks den_methods using w m 2 by (intro exI conjI) assumption+
qed

declare re_search.simps [simp del]

lemma re_search_Nil [simp]:
  "re_search r [] = (case rmatch r ([], []) of [] \<Rightarrow> None | (t, g) # _ \<Rightarrow> Some g)"
  by (simp add: re_search.simps[of r "[]"] split: list.splits)

lemma re_search_Cons [simp]:
  "re_search r (c # s) = (case rmatch r (c # s, []) of [] \<Rightarrow> re_search r s | (t, g) # _ \<Rightarrow> Some g)"
  by (simp add: re_search.simps[of r "c # s"] split: list.splits)

subsection \<open>Searching a line\<close>

lemma re_search_None:
  "re_search r s = None \<longleftrightarrow> (\<forall>pre rest. s = pre @ rest \<longrightarrow> rmatch r (rest, []) = [])"
proof (induction s)
  case Nil
  then show ?case by (auto split: list.splits)
next
  case (Cons c s)
  show ?case
  proof
    assume n: "re_search r (c # s) = None"
    then have here: "rmatch r (c # s, []) = []" and later: "re_search r s = None"
      by (auto split: list.splits)
    show "\<forall>pre rest. c # s = pre @ rest \<longrightarrow> rmatch r (rest, []) = []"
    proof (intro allI impI)
      fix pre rest
      assume e: "c # s = pre @ rest"
      show "rmatch r (rest, []) = []"
      proof (cases pre)
        case Nil
        then show ?thesis using e here by simp
      next
        case (Cons c' pre')
        then have "s = pre' @ rest" using e by simp
        then show ?thesis using later Cons.IH by blast
      qed
    qed
  next
    assume a: "\<forall>pre rest. c # s = pre @ rest \<longrightarrow> rmatch r (rest, []) = []"
    have here: "rmatch r (c # s, []) = []" using a[rule_format, of "[]" "c # s"] by simp
    have "\<forall>pre rest. s = pre @ rest \<longrightarrow> rmatch r (rest, []) = []"
    proof (intro allI impI)
      fix pre rest
      assume "s = pre @ rest"
      then have "c # s = (c # pre) @ rest" by simp
      then show "rmatch r (rest, []) = []" using a by blast
    qed
    then have "re_search r s = None" using Cons.IH by blast
    then show "re_search r (c # s) = None" using here by simp
  qed
qed

lemma re_search_Some:
  "re_search r s = Some g \<Longrightarrow> \<exists>pre rest t. s = pre @ rest \<and> (t, g) \<in> set (rmatch r (rest, []))"
proof (induction s)
  case Nil
  then obtain t where "rmatch r ([], []) = (t, g) # tl (rmatch r ([], []))"
    by (auto split: list.splits)
  then have "(t, g) \<in> set (rmatch r ([], []))" by (metis list.set_intros(1))
  then have "[] = [] @ [] \<and> (t, g) \<in> set (rmatch r ([], []))" by simp
  then show ?case by (intro exI)
next
  case (Cons c s)
  show ?case
  proof (cases "rmatch r (c # s, [])")
    case Nil
    then have "re_search r s = Some g" using Cons.prems by simp
    then obtain pre rest t where "s = pre @ rest" "(t, g) \<in> set (rmatch r (rest, []))"
      using Cons.IH by blast
    then have "c # s = (c # pre) @ rest \<and> (t, g) \<in> set (rmatch r (rest, []))" by simp
    then show ?thesis by (intro exI)
  next
    case (Cons x xs)
    then obtain t where "x = (t, g)" using Cons.prems by (cases x) auto
    then have "c # s = [] @ (c # s) \<and> (t, g) \<in> set (rmatch r (c # s, []))" using Cons by simp
    then show ?thesis by (intro exI)
  qed
qed

lemma rmatch_pattern_with:
  "(t, g) \<in> set (rmatch (pattern_with p) (rest, [])) \<longleftrightarrow>
     (\<exists>w u ip fp. rest = w @ t \<and> request_text p w u ip fp \<and> (t = [] \<or> t = [newline])
        \<and> g = [(''url'', u), (''request_time'', ip @ ''.'' @ fp)])"
  unfolding rmatch_den den_pattern_with by auto

lemma re_search_pattern_None:
  "re_search (pattern_with p) line = None \<longleftrightarrow> \<not> (\<exists>u ip fp. conforms p line u ip fp)"
proof
  assume n: "re_search (pattern_with p) line = None"
  show "\<not> (\<exists>u ip fp. conforms p line u ip fp)"
  proof
    assume "\<exists>u ip fp. conforms p line u ip fp"
    then obtain u ip fp where "conforms p line u ip fp" by blast
    from this[unfolded conforms_def] obtain pre w nl where c0: "line = pre @ w @ nl"
        "request_text p w u ip fp" "nl = [] \<or> nl = [newline]"
      by blast
    then have c: "line = pre @ (w @ nl)" "request_text p w u ip fp" "nl = [] \<or> nl = [newline]"
      by simp_all
    then have "(nl, [(''url'', u), (''request_time'', ip @ ''.'' @ fp)])
        \<in> set (rmatch (pattern_with p) (w @ nl, []))"
      unfolding rmatch_pattern_with by blast
    moreover have "rmatch (pattern_with p) (w @ nl, []) = []"
      using n c(1) unfolding re_search_None by blast
    ultimately show False by simp
  qed
next
  assume nc: "\<not> (\<exists>u ip fp. conforms p line u ip fp)"
  show "re_search (pattern_with p) line = None"
  proof (rule ccontr)
    assume "re_search (pattern_with p) line \<noteq> None"
    then obtain g where "re_search (pattern_with p) line = Some g" by auto
    then obtain pre rest t where s: "line = pre @ rest" "(t, g) \<in> set (rmatch (pattern_with p) (rest, []))"
      using re_search_Some by blast
    then obtain w u ip fp where "rest = w @ t" "request_text p w u ip fp" "t = [] \<or> t = [newline]"
      unfolding rmatch_pattern_with by blast
    then have "conforms p line u ip fp" unfolding conforms_def using s(1) by blast
    then show False using nc by blast
  qed
qed

lemma re_search_pattern_Some:
  assumes "re_search (pattern_with p) line = Some g"
  shows "\<exists>u ip fp. conforms p line u ip fp \<and> g = [(''url'', u), (''request_time'', ip @ ''.'' @ fp)]"
proof -
  obtain pre rest t where s: "line = pre @ rest" "(t, g) \<in> set (rmatch (pattern_with p) (rest, []))"
    using re_search_Some[OF assms] by blast
  then obtain w u ip fp where r: "rest = w @ t" "request_text p w u ip fp" "t = [] \<or> t = [newline]"
      "g = [(''url'', u), (''request_time'', ip @ ''.'' @ fp)]"
    unfolding rmatch_pattern_with by blast
  then have "conforms p line u ip fp" unfolding conforms_def using s(1) by blast
  then show ?thesis using r(4) by blast
qed

lemma is_digit_dot: "\<not> is_digit CHR ''.''"
  by (simp add: is_digit_def)

lemma takeWhile_all: "list_all P xs \<Longrightarrow> \<not> P y \<Longrightarrow> takeWhile P (xs @ y # ys) = xs"
  by (induction xs) auto

lemma dropWhile_all: "list_all P xs \<Longrightarrow> \<not> P y \<Longrightarrow> dropWhile P (xs @ y # ys) = y # ys"
  by (induction xs) auto

lemma py_float_decimal:
  assumes "ip \<noteq> []" "list_all is_digit ip" "fp \<noteq> []" "list_all is_digit fp"
  shows "py_float (ip @ ''.'' @ fp) = Inr (decimal ip fp)"
  using assms by (simp add: py_float_def takeWhile_all dropWhile_all is_digit_dot)

lemma line_sample_Some:
  assumes "re_search pattern l = Some [(''url'', u), (''request_time'', ip @ ''.'' @ fp)]"
    and "ip \<noteq> []" "list_all is_digit ip" "fp \<noteq> []" "list_all is_digit fp"
  shows "line_sample l = Inr (Some (u, decimal ip fp))"
proof -
  have "line_sample l = bind_err (py_float (ip @ ''.'' @ fp)) (\<lambda>v. Inr (Some (u, v)))"
    unfolding line_sample_def assms(1) by simp
  then show ?thesis
    unfolding py_float_decimal[OF assms(2-5)] by (simp add: bind_err_def)
qed

lemma request_text_digits:
  "request_text p w u ip fp \<Longrightarrow> ip \<noteq> [] \<and> list_all is_digit ip \<and> fp \<noteq> [] \<and> list_all is_digit fp"
  unfolding request_text_def by (elim exE conjE) simp

lemma conforms_digits:
  "conforms p l u ip fp \<Longrightarrow> ip \<noteq> [] \<and> list_all is_digit ip \<and> fp \<noteq> [] \<and> list_all is_digit fp"
  unfolding conforms_def using request_text_digits by blast

lemma line_sample_None:
  "line_sample l = Inr None \<longleftrightarrow> \<not> (\<exists>u ip fp. conforms any_char l u ip fp)"
proof (cases "re_search pattern l")
  case None
  then have "line_sample l = Inr None" unfolding line_sample_def by simp
  then show ?thesis
    using None re_search_pattern_None[of any_char l] by (simp only: pattern_eq) blast
next
  case (Some g)
  then obtain u ip fp where c: "conforms any_char l u ip fp"
      "g = [(''url'', u), (''request_time'', ip @ ''.'' @ fp)]"
    using re_search_pattern_Some[of any_char l g] unfolding pattern_eq by blast
  then have "line_sample l = Inr (Some (u, decimal ip fp))"
    using Some conforms_digits[OF c(1)] line_sample_Some[of l u ip fp] by blast
  then show ?thesis using c(1) by auto
qed

lemma line_sample_cases:
  "line_sample l = Inr None \<or>
   (\<exists>u ip fp. conforms any_char l u ip fp \<and> line_sample l = Inr (Some (u, decimal ip fp)))"
proof (cases "re_search pattern l")
  case None
  then have "line_sample l = Inr None" unfolding line_sample_def by simp
  then show ?thesis by blast
next
  case (Some g)
  then obtain u ip fp where c: "conforms any_char l u ip fp"
      "g = [(''url'', u), (''request_time'', ip @ ''.'' @ fp)]"
    using re_search_pattern_Some[of any_char l g] unfolding pattern_eq by blast
  then have "line_sample l = Inr (Some (u, decimal ip fp))"
    using Some conforms_digits[OF c(1)] line_sample_Some[of l u ip fp] by blast
  then show ?thesis using c(1) by blast
qed

lemma line_sample_not_Inl: "line_sample l \<noteq> Inl e"
  using line_sample_cases[of l] by auto

subsection \<open>The loop of parse\_log\_records\<close>

lemma samples_Nil [simp]: "samples [] = []"
  by (simp add: samples_def map_filter_simps)

lemma samples_Cons:
  "samples (l # ls) = (case line_sample l of Inr (Some x) \<Rightarrow> x # samples ls | _ \<Rightarrow> samples ls)"
  by (simp add: samples_def map_filter_simps split: sum.splits option.splits)

lemma n_counts_Nil [simp]: "n_success [] = 0" "n_failed [] = 0"
  by (simp_all add: n_success_def n_failed_def)

lemma n_counts_None:
  "line_sample l = Inr None \<Longrightarrow> n_success (l # ls) = n_success ls \<and> n_failed (l # ls) = n_failed ls + 1"
  by (simp add: n_success_def n_failed_def samples_Cons)

lemma n_counts_Some:
  "line_sample l = Inr (Some x) \<Longrightarrow> n_success (l # ls) = n_success ls + 1 \<and> n_failed (l # ls) = n_failed ls"
  by (simp add: n_success_def n_failed_def samples_Cons)

lemma n_counts_total: "n_success ls + n_failed ls = int (length ls)"
proof (induction ls)
  case Nil
  then show ?case by simp
next
  case (Cons l ls)
  show ?case
  proof (cases "line_sample l = Inr None")
    case True
    then show ?thesis using Cons n_counts_None[OF True, of ls] by simp
  next
    case False
    then obtain x where "line_sample l = Inr (Some x)"
      using line_sample_cases[of l] by auto
    then show ?thesis using Cons n_counts_Some[of l x ls] by simp
  qed
qed

lemma n_success_nonneg: "0 \<le> n_success ls" and n_failed_nonneg: "0 \<le> n_failed ls"
  by (simp_all add: n_success_def n_failed_def)

text \<open>The dictionary after the samples \<open>ss\<close> have been appended to it one by one.\<close>

lemma parse_loop_eq:
  "parse_loop ls st =
     Inr (st\<lparr>data := foldl (\<lambda>d (u, v). dd_append u v d) (data st) (samples ls),
             total_lines_count := total_lines_count st + n_success ls,
             total_failed_lines_count := total_failed_lines_count st + n_failed ls\<rparr>)"
proof (induction ls arbitrary: st)
  case Nil
  then show ?case by simp
next
  case (Cons l ls)
  show ?case
  proof (cases "line_sample l = Inr None")
    case True
    then show ?thesis
      using n_counts_None[OF True, of ls]
      by (simp add: parse_line_def bind_err_def Cons samples_Cons)
  next
    case False
    then obtain u v where s: "line_sample l = Inr (Some (u, v))"
      using line_sample_cases[of l] by auto
    then show ?thesis
      using n_counts_Some[OF s, of ls]
      by (simp add: parse_line_def bind_err_def Cons samples_Cons)
  qed
qed

subsection \<open>The aggregation\<close>

lemma dd_append_map:
  assumes "distinct ks"
  shows "dd_append u v (map (\<lambda>k. (k, f k)) ks) =
     (if u \<in> set ks then map (\<lambda>k. (k, if k = u then f k @ [v] else f k)) ks
      else map (\<lambda>k. (k, f k)) ks @ [(u, [v])])"
  using assms by (induction ks) auto

lemma first_keys_snoc:
  "rev (remdups (rev (xs @ [u]))) =
     (if u \<in> set xs then rev (remdups (rev xs)) else rev (remdups (rev xs)) @ [u])"
  by simp

lemma latencies_of_snoc:
  "latencies_of k (ss @ [(u, v)]) = (if k = u then latencies_of k ss @ [v] else latencies_of k ss)"
  by (simp add: latencies_of_def)

lemma latencies_of_absent: "u \<notin> fst ` set ss \<Longrightarrow> latencies_of u ss = []"
  by (induction ss) (auto simp: latencies_of_def)

lemma endpoint_latencies_snoc:
  "dd_append u v (endpoint_latencies ss) = endpoint_latencies (ss @ [(u, v)])"
proof -
  let ?ks = "rev (remdups (rev (map fst ss)))"
  have d: "distinct ?ks" by simp
  have s: "set ?ks = fst ` set ss" by simp
  show ?thesis
  proof (cases "u \<in> fst ` set ss")
    case True
    then have "endpoint_latencies (ss @ [(u, v)]) =
        map (\<lambda>k. (k, if k = u then latencies_of k ss @ [v] else latencies_of k ss)) ?ks"
      by (simp add: endpoint_latencies_def latencies_of_snoc)
    then show ?thesis
      using True s unfolding endpoint_latencies_def dd_append_map[OF d] by simp
  next
    case False
    then have "endpoint_latencies (ss @ [(u, v)]) =
        map (\<lambda>k. (k, latencies_of k ss)) ?ks @ [(u, [v])]"
      by (auto simp: endpoint_latencies_def latencies_of_snoc latencies_of_absent)
    then show ?thesis
      using False s unfolding endpoint_latencies_def dd_append_map[OF d] by simp
  qed
qed

lemma foldl_dd_append:
  "foldl (\<lambda>d (u, v). dd_append u v d) [] ss = endpoint_latencies ss"
proof (induction ss rule: rev_induct)
  case Nil
  then show ?case by (simp add: endpoint_latencies_def)
next
  case (snoc x ss)
  then show ?case by (cases x) (simp add: endpoint_latencies_snoc)
qed

lemma endpoint_latencies_empty: "endpoint_latencies ss = [] \<longleftrightarrow> ss = []"
  by (simp add: endpoint_latencies_def)

lemma parse_log_records_eq:
  "parse_log_records lines thr =
     (if n_success lines = 0 then Inl ZeroDivisionError
      else if of_int (n_failed lines) / of_int (n_success lines) > thr
      then Inl (HighFailedLinesRatio (of_int (n_failed lines) / of_int (n_success lines)))
      else Inr (endpoint_latencies (samples lines)))"
  by (simp add: parse_log_records_def parse_loop_eq bind_err_def py_div_def foldl_dd_append)

subsection \<open>Some lines, evaluated\<close>

lemmas eval_defs = line_sample_def pattern_def pattern_with_def py_float_def decimal_def
  nat_of_digits_def digit_val_def is_space_def is_digit_def any_char_def newline_def dquote_def
  bind_err_def

lemma line_sample_get_x: "line_sample ''GET /x HTTP/1.1\" 200 0.5'' = Inr (Some (''/x'', 1 / 2))"
  by (simp add: eval_defs)

lemma line_sample_get_zero: "line_sample ''GET /zero HTTP/1.1\" 200 0.00'' = Inr (Some (''/zero'', 0))"
  by (simp add: eval_defs)

lemma line_sample_junk: "line_sample ''junk'' = Inr None"
  by (simp add: eval_defs)

lemma line_sample_access_log:
  "line_sample (''1.2.3.4 - [29/Jun/2017:03:50:22 +0300] \"GET /api/v2/banner/25019354 HTTP/1.1\" 200 927 \"-\" 0.390''
      @ [newline]) = Inr (Some (''/api/v2/banner/25019354'', 39 / 100))"
  by (simp add: eval_defs)

lemma line_sample_path_with_space:
  "line_sample ''GET /a b HTTP/1.1\" 200 0.5'' = Inr (Some (''/a b'', 1 / 2))"
  by (simp add: eval_defs)

lemma spec_pattern_path_with_space:
  "re_search (pattern_with (\<lambda>c. \<not> is_space c)) ''GET /a b HTTP/1.1\" 200 0.5'' = None"
  by (simp add: eval_defs)

lemma counts_example:
  "n_success [''GET /x HTTP/1.1\" 200 0.5'', ''junk'', ''GET /zero HTTP/1.1\" 200 0.00''] = 2"
  "n_failed [''GET /x HTTP/1.1\" 200 0.5'', ''junk'', ''GET /zero HTTP/1.1\" 200 0.00''] = 1"
  "samples [''GET /x HTTP/1.1\" 200 0.5'', ''junk'', ''GET /zero HTTP/1.1\" 200 0.00'']
     = [(''/x'', 1 / 2), (''/zero'', 0)]"
  by (simp_all add: n_success_def n_failed_def samples_Cons line_sample_get_x line_sample_junk
      line_sample_get_zero)

lemma counts_junk: "n_success [''junk'', ''junk''] = 0" "n_failed [''junk'', ''junk''] = 2"
  by (simp_all add: n_success_def n_failed_def samples_Cons line_sample_junk)

subsection \<open>The corruption gate\<close>

text \<open>
  C1. When at least one line of the log is extracted, \<open>parse_log_records\<close> raises exactly
  when the number of failed lines divided by the number of extracted lines exceeds
  \<open>error_threshold\<close>. Both numbers count over the whole log, and together they make up
  the number of its lines, so the divisor is not the number of all lines. What is raised
  is the exception that carries the ratio; when the ratio is at most the threshold, the
  endpoint-to-latencies mapping of the log is returned.
\<close>

theorem parse_log_records_ratio_gate:
  assumes "0 < n_success lines"
  shows "((\<exists>e. parse_log_records lines thr = Inl e)
            \<longleftrightarrow> thr < of_int (n_failed lines) / of_int (n_success lines))
       \<and> (thr < of_int (n_failed lines) / of_int (n_success lines) \<longrightarrow>
            parse_log_records lines thr
              = Inl (HighFailedLinesRatio (of_int (n_failed lines) / of_int (n_success lines))))
       \<and> (of_int (n_failed lines) / of_int (n_success lines) \<le> thr \<longrightarrow>
            parse_log_records lines thr = Inr (endpoint_latencies (samples lines)))
       \<and> n_success lines + n_failed lines = int (length lines)"
  using assms by (simp add: parse_log_records_eq n_counts_total)

theorem parse_log_records_ratio_gate_witness:
  "0 < n_success [''GET /x HTTP/1.1\" 200 0.5'', ''junk'', ''GET /zero HTTP/1.1\" 200 0.00'']
   \<and> parse_log_records [''GET /x HTTP/1.1\" 200 0.5'', ''junk'', ''GET /zero HTTP/1.1\" 200 0.00''] (1 / 10)
       = Inl (HighFailedLinesRatio (1 / 2))
   \<and> parse_log_records [''GET /x HTTP/1.1\" 200 0.5'', ''junk'', ''GET /zero HTTP/1.1\" 200 0.00''] (1 / 2)
       = Inr [(''/x'', [1 / 2]), (''/zero'', [0])]"
  using parse_log_records_ratio_gate
      [of "[''GET /x HTTP/1.1\" 200 0.5'', ''junk'', ''GET /zero HTTP/1.1\" 200 0.00'']" "1 / 10"]
    parse_log_records_ratio_gate
      [of "[''GET /x HTTP/1.1\" 200 0.5'', ''junk'', ''GET /zero HTTP/1.1\" 200 0.00'']" "1 / 2"]
  by (simp add: counts_example endpoint_latencies_def latencies_of_def)

text \<open>
  C2. On a log from which no line is extracted, the empty log among them,
  \<open>parse_log_records\<close> divides by the zero count of extracted lines: what it raises is
  \<open>ZeroDivisionError\<close>, whatever the threshold. No check of the count comes before
  the division.
\<close>

theorem parse_log_records_no_success:
  assumes "n_success lines = 0"
  shows "parse_log_records lines thr = Inl ZeroDivisionError"
  using assms by (simp add: parse_log_records_eq)

theorem parse_log_records_no_success_witness:
  "n_success [] = 0 \<and> parse_log_records [] (1 / 10) = Inl ZeroDivisionError
   \<and> n_success [''junk'', ''junk''] = 0
   \<and> parse_log_records [''junk'', ''junk''] (1 / 10) = Inl ZeroDivisionError"
  using parse_log_records_no_success[of "[]" "1 / 10"]
    parse_log_records_no_success[of "[''junk'', ''junk'']" "1 / 10"]
  by (simp add: counts_junk)

text \<open>
  C3. \<open>main\<close> never takes its branch for an empty aggregation, \<open>Exit_no_records\<close>:
  \<open>parse_log_records\<close> returns no empty mapping. When no line of the log is extracted,
  \<open>main\<close> ends with the \<open>ZeroDivisionError\<close> of \<open>parse_log_records\<close>.
\<close>

theorem main_empty_aggregation:
  "main lines thr report_size \<noteq> Exit_no_records
   \<and> (n_success lines = 0 \<longrightarrow> main lines thr report_size = Raised ZeroDivisionError)"
proof -
  have "n_success lines = 0 \<longleftrightarrow> samples lines = []"
    by (simp add: n_success_def)
  then show ?thesis
    by (simp add: main_def parse_log_records_eq endpoint_latencies_empty split: sum.splits)
qed

theorem main_empty_aggregation_witness:
  "main [] (1 / 10) 1000 = Raised ZeroDivisionError
   \<and> main [''junk'', ''junk''] (1 / 10) 1000 = Raised ZeroDivisionError"
  using main_empty_aggregation[of "[]" "1 / 10" 1000]
    main_empty_aggregation[of "[''junk'', ''junk'']" "1 / 10" 1000]
  by (simp add: counts_junk)

subsection \<open>The line extractor\<close>

text \<open>
  C7, as the code has it. A line gives a sample exactly when it holds a request: a method
  among POST, GET, HEAD, PUT and OPTIONS, whitespace, a path, whitespace, \<^verbatim>\<open>HTTP/d.d"\<close>,
  a whitespace character, other fields, a whitespace character and a latency in digits
  with a dot, at the end of the line or before the newline that ends it. The path is a
  non-empty run of characters other than a newline, whitespace included, and text may
  precede the method. The sample is the path and the decimal value of the latency of such
  a request. Every other line gives no sample, and no line raises.
\<close>

theorem line_sample_conforms:
  "(line_sample l = Inr None \<longleftrightarrow> \<not> (\<exists>u ip fp. conforms any_char l u ip fp))
   \<and> (\<forall>u v. line_sample l = Inr (Some (u, v))
         \<longrightarrow> (\<exists>ip fp. conforms any_char l u ip fp \<and> v = decimal ip fp))
   \<and> (\<forall>e. line_sample l \<noteq> Inl e)"
proof (intro conjI allI impI)
  show "line_sample l = Inr None \<longleftrightarrow> \<not> (\<exists>u ip fp. conforms any_char l u ip fp)"
    by (rule line_sample_None)
next
  fix u v
  assume s: "line_sample l = Inr (Some (u, v))"
  then obtain u' ip fp where c: "conforms any_char l u' ip fp"
      "line_sample l = Inr (Some (u', decimal ip fp))"
    using line_sample_cases[of l] by auto
  then have "u' = u" "v = decimal ip fp" using s by simp_all
  then show "\<exists>ip fp. conforms any_char l u ip fp \<and> v = decimal ip fp" using c(1) by blast
next
  fix e
  show "line_sample l \<noteq> Inl e" by (rule line_sample_not_Inl)
qed

theorem line_sample_conforms_witness:
  "\<exists>ip fp. conforms any_char
      (''1.2.3.4 - [29/Jun/2017:03:50:22 +0300] \"GET /api/v2/banner/25019354 HTTP/1.1\" 200 927 \"-\" 0.390''
        @ [newline])
      ''/api/v2/banner/25019354'' ip fp \<and> (39 / 100 :: rat) = decimal ip fp"
  using line_sample_conforms
    [of "''1.2.3.4 - [29/Jun/2017:03:50:22 +0300] \"GET /api/v2/banner/25019354 HTTP/1.1\" 200 927 \"-\" 0.390''
        @ [newline]"]
    line_sample_access_log
  by blast

text \<open>
  C7 as stated fails: the line \<^verbatim>\<open>GET /a b HTTP/1.1" 200 0.5\<close> gives the sample with the
  path \<^verbatim>\<open>/a b\<close>, although it holds no request whose path is free of whitespace.
\<close>

theorem line_sample_path_with_space_counterexample:
  "line_sample ''GET /a b HTTP/1.1\" 200 0.5'' = Inr (Some (''/a b'', 1 / 2))
   \<and> \<not> (\<exists>u ip fp. conforms (\<lambda>c. \<not> is_space c) ''GET /a b HTTP/1.1\" 200 0.5'' u ip fp)"
  using line_sample_path_with_space spec_pattern_path_with_space
    re_search_pattern_None[of "\<lambda>c. \<not> is_space c" "''GET /a b HTTP/1.1\" 200 0.5''"]
  by simp

lemma conforms_prefix: "conforms p l u ip fp \<Longrightarrow> conforms p (pre @ l) u ip fp"
proof -
  assume "conforms p l u ip fp"
  then obtain pre0 w nl where c: "l = pre0 @ w @ nl" "request_text p w u ip fp"
      "nl = [] \<or> nl = [newline]"
    unfolding conforms_def by blast
  then have "pre @ l = (pre @ pre0) @ w @ nl \<and> request_text p w u ip fp
      \<and> (nl = [] \<or> nl = [newline])"
    by simp
  then show ?thesis unfolding conforms_def by (intro exI)
qed

text \<open>Whatever precedes a line that gives a sample, the longer line gives one too.\<close>

lemma line_sample_prefix:
  assumes "line_sample l = Inr (Some x)"
  shows "\<exists>y. line_sample (pre @ l) = Inr (Some y)"
proof -
  obtain u ip fp where "conforms any_char l u ip fp"
    using assms line_sample_None[of l] by auto
  then have "conforms any_char (pre @ l) u ip fp" by (rule conforms_prefix)
  then have "line_sample (pre @ l) \<noteq> Inr None" using line_sample_None[of "pre @ l"] by blast
  then show ?thesis using line_sample_cases[of "pre @ l"] by auto
qed

text \<open>
  C10. The pattern is searched for, not matched against the whole line: with text before
  the method the request is still found, and the sample is the one of the request alone.
\<close>

theorem line_sample_after_prefix:
  "line_sample (''garbage text '' @ ''GET /x HTTP/1.1\" 200 0.5'') = Inr (Some (''/x'', 1 / 2))
   \<and> line_sample ''GET /x HTTP/1.1\" 200 0.5'' = Inr (Some (''/x'', 1 / 2))"
  by (simp add: eval_defs)

subsection \<open>Sums, the maximum, the median and rounding\<close>

lemma foldl_plus: "foldl (+) a xs = a + sum_list xs" for a :: "'a::monoid_add"
  by (induction xs arbitrary: a) (simp_all add: add.assoc)

lemma py_sum_eq: "py_sum xs = sum_list xs"
  by (simp add: py_sum_def foldl_plus)

lemma count_total_eq:
  "foldl (+) 0 (map (\<lambda>(_, request_times). int (length request_times)) stats) = int (total_count stats)"
  by (induction stats) (auto simp: foldl_plus total_count_def)

lemma time_sum_total_eq:
  "py_sum (concat (map (\<lambda>(_, request_times). request_times) stats)) = total_time stats"
  by (induction stats) (auto simp: py_sum_eq total_time_def)

lemma sort_Nil_iff: "sort ts = [] \<longleftrightarrow> ts = []"
  by (metis length_0_conv length_sort)

lemma last_sort_Max:
  fixes ts :: "'a::linorder list"
  assumes "ts \<noteq> []"
  shows "last (sort ts) = Max (set ts)"
proof -
  have ne: "sort ts \<noteq> []" using assms by (metis length_0_conv length_sort)
  have "Max (set (sort ts)) = last (sort ts)"
  proof (rule Max_eqI)
    show "finite (set (sort ts))" by simp
    show "last (sort ts) \<in> set (sort ts)" using ne by (rule last_in_set)
    fix y
    assume "y \<in> set (sort ts)"
    then obtain i where i: "i < length (sort ts)" "sort ts ! i = y" by (metis in_set_conv_nth)
    have "sort ts ! i \<le> sort ts ! (length (sort ts) - 1)"
      by (rule sorted_nth_mono) (use i in auto)
    then show "y \<le> last (sort ts)" using i ne by (simp add: last_conv_nth)
  qed
  then show ?thesis by simp
qed

lemma median_middle_value:
  assumes "ts \<noteq> []"
  shows "median ts = Inr (middle_value ts)"
proof (cases "even (length ts)")
  case True
  then have "length ts mod 2 \<noteq> 1" by presburger
  then show ?thesis
    using assms True unfolding median_def middle_value_def Let_def length_sort by simp
next
  case False
  then have "length ts mod 2 = 1" by presburger
  then show ?thesis
    using assms False unfolding median_def middle_value_def Let_def length_sort by simp
qed

lemma round_half_even_error: "\<bar>of_int (round_half_even y) - y\<bar> \<le> 1 / 2"
proof -
  have "of_int \<lfloor>y\<rfloor> \<le> y" "y < of_int \<lfloor>y\<rfloor> + 1" by linarith+
  then show ?thesis by (auto simp: round_half_even_def Let_def)
qed

lemma py_round3_error: "\<bar>py_round x 3 - x\<bar> \<le> 1 / 2000"
proof -
  have "py_round x 3 - x = (of_int (round_half_even (x * 1000)) - x * 1000) / 1000"
    by (simp add: py_round_def field_simps)
  then have "\<bar>py_round x 3 - x\<bar> = \<bar>of_int (round_half_even (x * 1000)) - x * 1000\<bar> / 1000"
    by (simp only: abs_divide abs_numeral)
  also have "\<dots> \<le> (1 / 2) / 1000"
    using round_half_even_error[of "x * 1000"] by (simp add: divide_right_mono)
  finally show ?thesis by simp
qed

subsection \<open>build\_report\_object\<close>

lemma build_obj_eq:
  "build_obj ct tt (u, ts) =
     (if ct = 0 \<or> tt = 0 \<or> ts = [] then Inl ZeroDivisionError
      else Inr \<lparr>url = u,
                count' = int (length ts),
                count_perc = py_round (of_nat (length ts) / of_int ct * 100) 3,
                time_sum = py_round (sum_list ts) 3,
                time_perc = py_round (sum_list ts / tt * 100) 3,
                time_avg = py_round (sum_list ts / of_nat (length ts)) 3,
                time_max = Max (set ts),
                time_med = py_round (middle_value ts) 3\<rparr>)"
  by (simp add: build_obj_def bind_err_def py_div_def py_sum_eq py_last_def last_sort_Max
      median_middle_value sort_Nil_iff Let_def)

lemma build_obj_summary:
  "build_obj (int n) tt item =
     (if n = 0 \<or> tt = 0 \<or> snd item = [] then Inl ZeroDivisionError else Inr (summary n tt item))"
  by (cases item) (simp add: build_obj_eq summary_def)

lemma build_rows_eq:
  "build_rows (int n) tt items acc =
     (if items = [] then Inr acc
      else if n \<noteq> 0 \<and> tt \<noteq> 0 \<and> all_sampled items then Inr (acc @ map (summary n tt) items)
      else Inl ZeroDivisionError)"
proof (induction items arbitrary: acc)
  case Nil
  then show ?case by simp
next
  case (Cons item items)
  show ?case
  proof (cases "n = 0 \<or> tt = 0 \<or> snd item = []")
    case True
    then show ?thesis
      by (cases item) (auto simp: build_obj_summary bind_err_def all_sampled_def)
  next
    case False
    then have "build_rows (int n) tt (item # items) acc
        = build_rows (int n) tt items (acc @ [summary n tt item])"
      by (simp add: build_obj_summary bind_err_def)
    then show ?thesis
      using False by (cases item) (auto simp: Cons all_sampled_def)
  qed
qed

lemma build_report_object_eq:
  "build_report_object stats =
     (if stats = [] then Inr []
      else if all_sampled stats \<and> total_time stats \<noteq> 0
      then Inr (map (summary (total_count stats) (total_time stats)) stats)
      else Inl ZeroDivisionError)"
proof -
  have pos: "total_count stats \<noteq> 0" if ne: "stats \<noteq> []" and sa: "all_sampled stats"
  proof -
    obtain u ts rest where "stats = (u, ts) # rest" using ne by (cases stats) auto
    then show ?thesis using sa by (simp add: total_count_def all_sampled_def)
  qed
  show ?thesis
    unfolding build_report_object_def Let_def count_total_eq time_sum_total_eq build_rows_eq
    using pos by auto
qed

subsection \<open>The summary records\<close>

lemma summary_sel:
  "url (summary n t item) = fst item"
  "count' (summary n t item) = int (length (snd item))"
  "count_perc (summary n t item) = py_round (of_nat (length (snd item)) / of_nat n * 100) 3"
  "time_sum (summary n t item) = py_round (sum_list (snd item)) 3"
  "time_perc (summary n t item) = py_round (sum_list (snd item) / t * 100) 3"
  "time_avg (summary n t item) = py_round (sum_list (snd item) / of_nat (length (snd item))) 3"
  "time_max (summary n t item) = Max (set (snd item))"
  "time_med (summary n t item) = py_round (middle_value (snd item)) 3"
  by (cases item; simp add: summary_def)+



lemma build_report_object_Inr:
  assumes "build_report_object stats = Inr rows" and "rows \<noteq> []"
  shows "all_sampled stats" "total_time stats \<noteq> 0" "total_count stats \<noteq> 0"
    "rows = map (summary (total_count stats) (total_time stats)) stats"
proof -
  have ne: "stats \<noteq> []" using assms by (auto simp: build_report_object_eq)
  then show a: "all_sampled stats" and "total_time stats \<noteq> 0"
    and "rows = map (summary (total_count stats) (total_time stats)) stats"
    using assms(1) by (auto simp: build_report_object_eq split: if_splits)
  obtain u ts rest where "stats = (u, ts) # rest" using ne by (cases stats) auto
  then show "total_count stats \<noteq> 0" using a by (simp add: total_count_def all_sampled_def)
qed



lemma floor_rat_numeral_divide: "\<lfloor>numeral a / numeral b :: rat\<rfloor> = numeral a div numeral b"
  using floor_divide_of_int_eq[of "numeral a" "numeral b", where ?'a = rat] by simp

lemmas round_eval = py_round_def round_half_even_def Let_def floor_rat_numeral_divide

text \<open>The case of the repository's test \<^verbatim>\<open>test_build_report_object\<close>.\<close>

lemma build_report_object_test_case:
  "build_report_object [(''test.com'', [39 / 100, 133 / 1000, 199 / 1000, 704 / 1000])] =
     Inr [\<lparr>url = ''test.com'', count' = 4, count_perc = 100, time_sum = 1426 / 1000,
           time_perc = 100, time_avg = 356 / 1000, time_max = 704 / 1000,
           time_med = 294 / 1000\<rparr>]"
  by (simp add: build_report_object_eq summary_def middle_value_def all_sampled_def
      total_time_def total_count_def round_eval)



lemma two_endpoints_rows:
  "build_report_object [(''/a'', [1, 2]), (''/b'', [1])] =
     Inr [\<lparr>url = ''/a'', count' = 2, count_perc = 66667 / 1000, time_sum = 3, time_perc = 75,
           time_avg = 3 / 2, time_max = 2, time_med = 3 / 2\<rparr>,
          \<lparr>url = ''/b'', count' = 1, count_perc = 33333 / 1000, time_sum = 1, time_perc = 25,
           time_avg = 1, time_max = 1, time_med = 1\<rparr>]"
  by (simp add: build_report_object_eq all_sampled_def total_time_def total_count_def summary_def
      middle_value_def round_eval)


subsection \<open>The shares add up\<close>

lemma sum_list_round_error:
  "\<bar>sum_list (map (\<lambda>x. py_round (f x) 3) xs) - sum_list (map f xs)\<bar> \<le> of_nat (length xs) / 2000"
proof (induction xs)
  case Nil
  then show ?case by simp
next
  case (Cons x xs)
  have "\<bar>sum_list (map (\<lambda>x. py_round (f x) 3) (x # xs)) - sum_list (map f (x # xs))\<bar>
      = \<bar>(py_round (f x) 3 - f x)
          + (sum_list (map (\<lambda>x. py_round (f x) 3) xs) - sum_list (map f xs))\<bar>"
    by simp
  also have "\<dots> \<le> \<bar>py_round (f x) 3 - f x\<bar>
      + \<bar>sum_list (map (\<lambda>x. py_round (f x) 3) xs) - sum_list (map f xs)\<bar>"
    by (rule abs_triangle_ineq)
  also have "\<dots> \<le> 1 / 2000 + of_nat (length xs) / 2000"
    using py_round3_error[of "f x"] Cons by (rule add_mono)
  finally show ?case by (simp add: add_divide_distrib)
qed

lemma sum_list_scaled:
  fixes h :: "'a \<Rightarrow> rat"
  shows "sum_list (map (\<lambda>x. h x / c * k) xs) = sum_list (map h xs) / c * k"
  by (induction xs) (simp_all add: add_divide_distrib distrib_right)

lemma total_count_sum:
  "sum_list (map (\<lambda>item. of_nat (length (snd item))) stats) = (of_nat (total_count stats) :: rat)"
  by (induction stats) (auto simp: total_count_def)

lemma total_time_sum:
  "sum_list (map (\<lambda>item. sum_list (snd item)) stats) = total_time stats"
  by (induction stats) (auto simp: total_time_def)

text \<open>
  C8. When \<open>build_report_object\<close> returns at least one record, the \<open>count_perc\<close> of its
  records add up to 100 within 0.001 times the number of records, and so do the
  \<open>time_perc\<close>. (The distance is at most half of that: each share is off by at most
  0.0005 through its rounding to 3 decimals.)
\<close>

theorem shares_add_up:
  assumes "build_report_object stats = Inr rows" and "rows \<noteq> []"
  shows "\<bar>sum_list (map count_perc rows) - 100\<bar> \<le> 1 / 1000 * of_nat (length rows)
       \<and> \<bar>sum_list (map time_perc rows) - 100\<bar> \<le> 1 / 1000 * of_nat (length rows)"
proof -
  note b = build_report_object_Inr[OF assms]
  let ?N = "total_count stats" and ?T = "total_time stats"
  have len: "length rows = length stats" using b(4) by simp
  have c: "map count_perc rows
      = map (\<lambda>item. py_round (of_nat (length (snd item)) / of_nat ?N * 100) 3) stats"
    unfolding b(4) by (simp add: summary_sel)
  have cs: "sum_list (map (\<lambda>item. of_nat (length (snd item)) / of_nat ?N * 100) stats) = (100 :: rat)"
    unfolding sum_list_scaled total_count_sum using b(3) by simp
  have t: "map time_perc rows = map (\<lambda>item. py_round (sum_list (snd item) / ?T * 100) 3) stats"
    unfolding b(4) by (simp add: summary_sel)
  have ts: "sum_list (map (\<lambda>item. sum_list (snd item) / ?T * 100) stats) = (100 :: rat)"
    unfolding sum_list_scaled total_time_sum using b(2) by simp
  have half: "(of_nat (length stats) :: rat) / 2000 \<le> 1 / 1000 * of_nat (length stats)"
    by simp
  have "\<bar>sum_list (map count_perc rows) - 100\<bar> \<le> of_nat (length stats) / 2000"
    using sum_list_round_error[of "\<lambda>item. of_nat (length (snd item)) / of_nat ?N * 100" stats]
    unfolding c cs .
  moreover have "\<bar>sum_list (map time_perc rows) - 100\<bar> \<le> of_nat (length stats) / 2000"
    using sum_list_round_error[of "\<lambda>item. sum_list (snd item) / ?T * 100" stats]
    unfolding t ts .
  ultimately show ?thesis using half unfolding len by linarith
qed

theorem shares_add_up_witness:
  "(\<exists>rows. build_report_object [(''/a'', [1, 2]), (''/b'', [1])] = Inr rows \<and> rows \<noteq> []
      \<and> sum_list (map count_perc rows) = 100 \<and> sum_list (map time_perc rows) = 100
      \<and> \<bar>sum_list (map count_perc rows) - 100\<bar> \<le> 1 / 1000 * of_nat (length rows)
      \<and> \<bar>sum_list (map time_perc rows) - 100\<bar> \<le> 1 / 1000 * of_nat (length rows))"
proof -
  let ?rows = "[\<lparr>url = ''/a'', count' = 2, count_perc = 66667 / 1000, time_sum = 3, time_perc = 75,
           time_avg = 3 / 2, time_max = 2, time_med = 3 / 2\<rparr>,
          \<lparr>url = ''/b'', count' = 1, count_perc = 33333 / 1000, time_sum = 1, time_perc = 25,
           time_avg = 1, time_max = 1, time_med = 1\<rparr>]"
  have r: "build_report_object [(''/a'', [1, 2]), (''/b'', [1])] = Inr ?rows"
    by (rule two_endpoints_rows)
  have n: "?rows \<noteq> []" by simp
  have s: "sum_list (map count_perc ?rows) = 100" "sum_list (map time_perc ?rows) = 100"
    by simp_all
  show ?thesis
    using shares_add_up[OF r n] r n s by blast
qed

subsection \<open>A total of zero\<close>

lemma build_report_object_zero_total:
  assumes "stats \<noteq> []" and "total_time stats = 0"
  shows "build_report_object stats = Inl ZeroDivisionError"
  using assms by (simp add: build_report_object_eq)

text \<open>
  C9. The line \<^verbatim>\<open>GET /zero HTTP/1.1" 200 0.00\<close> is extracted, with the latency 0. On the
  log of this line alone \<open>parse_log_records\<close> returns the mapping with the one endpoint
  and its one latency 0, which is not empty, and on this mapping \<open>build_report_object\<close>
  raises \<open>ZeroDivisionError\<close>: the division of the count by the total count, the first
  of the record, gives 1, and the division of the endpoint's sum by the total of all
  latencies, for \<open>time_perc\<close>, has the divisor zero. \<open>main\<close> ends with this exception.
\<close>

theorem build_report_object_zero_latencies:
  "line_sample ''GET /zero HTTP/1.1\" 200 0.00'' = Inr (Some (''/zero'', 0))
   \<and> parse_log_records [''GET /zero HTTP/1.1\" 200 0.00''] (1 / 10) = Inr [(''/zero'', [0])]
   \<and> [(''/zero'', [0 :: rat])] \<noteq> []
   \<and> build_report_object [(''/zero'', [0])] = Inl ZeroDivisionError
   \<and> py_div (of_int (int (length [0 :: rat]))) (of_int 1) = Inr 1
   \<and> py_div (py_sum [0]) (py_sum (concat [[0]])) = Inl ZeroDivisionError
   \<and> main [''GET /zero HTTP/1.1\" 200 0.00''] (1 / 10) 1000 = Raised ZeroDivisionError"
proof -
  have s: "samples [''GET /zero HTTP/1.1\" 200 0.00''] = [(''/zero'', 0)]"
    by (simp add: samples_Cons line_sample_get_zero)
  have p: "parse_log_records [''GET /zero HTTP/1.1\" 200 0.00''] (1 / 10) = Inr [(''/zero'', [0])]"
    by (simp add: parse_log_records_eq n_success_def n_failed_def s line_sample_get_zero
        endpoint_latencies_def latencies_of_def)
  have b: "build_report_object [(''/zero'', [0])] = Inl ZeroDivisionError"
    by (simp add: build_report_object_eq total_time_def all_sampled_def)
  have m: "main [''GET /zero HTTP/1.1\" 200 0.00''] (1 / 10) 1000 = Raised ZeroDivisionError"
    by (simp add: main_def p b)
  show ?thesis
    using line_sample_get_zero p b m by (simp add: py_div_def py_sum_def)
qed

subsection \<open>filter\_report\<close>

lemma py_sorted_reverse_mset: "mset (py_sorted_reverse f xs) = mset xs"
  by (simp add: py_sorted_reverse_def)

lemma py_sorted_reverse_sorted:
  "sorted_wrt (\<lambda>a b. f a \<ge> f b) (py_sorted_reverse f xs)"
proof -
  have "sorted (map f (sort_key f (rev xs)))" by (rule sorted_sort_key)
  then have "sorted_wrt (\<lambda>a b. f a \<le> f b) (sort_key f (rev xs))"
    by (simp add: sorted_wrt_map)
  then show ?thesis
    by (simp add: py_sorted_reverse_def sorted_wrt_rev)
qed

lemma py_sorted_reverse_stable:
  "filter (\<lambda>x. f x = k) (py_sorted_reverse f xs) = filter (\<lambda>x. f x = k) xs"
proof -
  have "filter (\<lambda>x. f x = k) (py_sorted_reverse f xs)
      = rev (filter (\<lambda>x. f x = k) (sort_key f (rev xs)))"
    by (simp add: py_sorted_reverse_def rev_filter)
  also have "\<dots> = rev (filter (\<lambda>x. f x = k) (rev xs))"
    by (simp only: sort_key_stable)
  also have "\<dots> = filter (\<lambda>x. f x = k) xs"
    by (simp add: rev_filter)
  finally show ?thesis .
qed

text \<open>
  C6. For a report size that is not negative, \<open>filter_report\<close> returns the first
  \<open>report_size\<close> records of the list \<open>full\<close> that holds the same records as the input,
  in descending order of \<open>time_sum\<close>, the records of equal \<open>time_sum\<close> in the order they
  have in the input; it returns all of \<open>full\<close> when the input has at most \<open>report_size\<close>
  records; and the caller's list is left as it was.
\<close>

theorem filter_report_top_n:
  assumes "0 \<le> report_size"
  shows "\<exists>full. mset full = mset report_data
     \<and> sorted_wrt (\<lambda>a b. time_sum a \<ge> time_sum b) full
     \<and> (\<forall>k. filter (\<lambda>r. time_sum r = k) full = filter (\<lambda>r. time_sum r = k) report_data)
     \<and> fst (filter_report report_data report_size) = take (nat report_size) full
     \<and> (int (length report_data) \<le> report_size \<longrightarrow>
          fst (filter_report report_data report_size) = full)
     \<and> snd (filter_report report_data report_size) = report_data"
proof -
  let ?full = "py_sorted_reverse time_sum report_data"
  have l: "length ?full = length report_data"
    by (simp add: py_sorted_reverse_def)
  have "mset ?full = mset report_data" by (rule py_sorted_reverse_mset)
  moreover have "sorted_wrt (\<lambda>a b. time_sum a \<ge> time_sum b) ?full"
    by (rule py_sorted_reverse_sorted)
  moreover have "\<forall>k. filter (\<lambda>r. time_sum r = k) ?full = filter (\<lambda>r. time_sum r = k) report_data"
    by (simp add: py_sorted_reverse_stable)
  moreover have "fst (filter_report report_data report_size) = take (nat report_size) ?full"
    using assms by (simp add: filter_report_def py_slice_to_def Let_def)
  moreover have "int (length report_data) \<le> report_size \<longrightarrow>
      fst (filter_report report_data report_size) = ?full"
    using assms l by (simp add: filter_report_def py_slice_to_def Let_def)
  moreover have "snd (filter_report report_data report_size) = report_data"
    by (simp add: filter_report_def Let_def)
  ultimately show ?thesis by (intro exI[of _ ?full] conjI)
qed

theorem filter_report_top_n_witness:
  "(0 :: int) \<le> 2
   \<and> fst (filter_report
        [\<lparr>url = ''/a'', count' = 1, count_perc = 25, time_sum = 1, time_perc = 25, time_avg = 1,
          time_max = 1, time_med = 1\<rparr>,
         \<lparr>url = ''/b'', count' = 1, count_perc = 25, time_sum = 2, time_perc = 50, time_avg = 2,
          time_max = 2, time_med = 2\<rparr>,
         \<lparr>url = ''/c'', count' = 2, count_perc = 50, time_sum = 1, time_perc = 25, time_avg = 1 / 2,
          time_max = 1 / 2, time_med = 1 / 2\<rparr>] 2)
     = [\<lparr>url = ''/b'', count' = 1, count_perc = 25, time_sum = 2, time_perc = 50, time_avg = 2,
          time_max = 2, time_med = 2\<rparr>,
        \<lparr>url = ''/a'', count' = 1, count_perc = 25, time_sum = 1, time_perc = 25, time_avg = 1,
          time_max = 1, time_med = 1\<rparr>]
   \<and> (\<exists>full. fst (filter_report
        [\<lparr>url = ''/a'', count' = 1, count_perc = 25, time_sum = 1, time_perc = 25, time_avg = 1,
          time_max = 1, time_med = 1\<rparr>,
         \<lparr>url = ''/b'', count' = 1, count_perc = 25, time_sum = 2, time_perc = 50, time_avg = 2,
          time_max = 2, time_med = 2\<rparr>,
         \<lparr>url = ''/c'', count' = 2, count_perc = 50, time_sum = 1, time_perc = 25, time_avg = 1 / 2,
          time_max = 1 / 2, time_med = 1 / 2\<rparr>] 2) = take 2 full
       \<and> sorted_wrt (\<lambda>a b. time_sum a \<ge> time_sum b) full \<and> length full = 3)"
proof -
  let ?R = "[\<lparr>url = ''/a'', count' = 1, count_perc = 25, time_sum = 1, time_perc = 25, time_avg = 1,
          time_max = 1, time_med = 1\<rparr>,
         \<lparr>url = ''/b'', count' = 1, count_perc = 25, time_sum = 2, time_perc = 50, time_avg = 2,
          time_max = 2, time_med = 2\<rparr>,
         \<lparr>url = ''/c'', count' = 2, count_perc = 50, time_sum = 1, time_perc = 25, time_avg = 1 / 2,
          time_max = 1 / 2, time_med = 1 / 2\<rparr>]"
  have z: "(0 :: int) \<le> 2" by simp
  from filter_report_top_n[OF z, of ?R] obtain full where
    f: "mset full = mset ?R" "sorted_wrt (\<lambda>a b. time_sum a \<ge> time_sum b) full"
      "fst (filter_report ?R 2) = take (nat 2) full"
    by blast
  have "length full = length ?R" using f(1) by (metis size_mset)
  then have l: "length full = 3" by simp
  have e: "fst (filter_report ?R 2)
     = [\<lparr>url = ''/b'', count' = 1, count_perc = 25, time_sum = 2, time_perc = 50, time_avg = 2,
          time_max = 2, time_med = 2\<rparr>,
        \<lparr>url = ''/a'', count' = 1, count_perc = 25, time_sum = 1, time_perc = 25, time_avg = 1,
          time_max = 1, time_med = 1\<rparr>]"
    by (simp add: filter_report_def py_sorted_reverse_def py_slice_to_def Let_def)
  have t: "fst (filter_report ?R 2) = take 2 full" using f(3) by simp
  show ?thesis using z e t f(2) l by blast
qed

end
